theory Spec2Isabelle
  imports Main "HOL-Library.Sublist"
begin

section \<open>Python string operations used by the pipeline\<close>

text \<open>
  A Python \<open>str\<close> is a sequence of code points. The model takes each \<^typ>\<open>char\<close> as one code
  point in the range U+0000..U+00FF, so a \<^typ>\<open>string\<close> is a Python \<open>str\<close> over that range, and
  \<open>str.strip\<close>, \<open>str.splitlines\<close>, \<open>str.lower\<close>, \<open>str.startswith\<close>, \<open>str.join\<close> and the
  operator \<open>in\<close> are written out as CPython defines them on it. None of them raises on a
  \<open>str\<close>, so none of them has an error branch.
\<close>

definition LF :: char where
  "LF = CHR 0x0A"

definition CR :: char where
  "CR = CHR 0x0D"

text \<open>\<open>str.isspace\<close> on one code point: the characters that \<open>str.strip()\<close> removes.\<close>

definition isspace :: "char \<Rightarrow> bool" where
  "isspace c = (c \<in> set [CHR 0x09, CHR 0x0A, CHR 0x0B, CHR 0x0C, CHR 0x0D, CHR 0x1C,
     CHR 0x1D, CHR 0x1E, CHR 0x1F, CHR 0x20, CHR 0x85, CHR 0xA0])"

text \<open>The line boundaries of \<open>str.splitlines()\<close>; \<open>\r\n\<close> counts as one boundary.\<close>

definition is_linebreak :: "char \<Rightarrow> bool" where
  "is_linebreak c = (c \<in> set [CHR 0x0A, CHR 0x0B, CHR 0x0C, CHR 0x0D, CHR 0x1C, CHR 0x1D,
     CHR 0x1E, CHR 0x85])"

definition lstrip :: "string \<Rightarrow> string" where
  "lstrip s = dropWhile isspace s"

definition rstrip :: "string \<Rightarrow> string" where
  "rstrip s = rev (dropWhile isspace (rev s))"

definition strip :: "string \<Rightarrow> string" where
  "strip s = rstrip (lstrip s)"

text \<open>
  \<open>s.splitlines()\<close>: the lines of \<open>s\<close> without their terminators; a terminator at the very end
  opens no further line, and the empty string has no line.
\<close>

fun splitlines :: "string \<Rightarrow> string list" where
  "splitlines [] = []"
| "splitlines [c] = (if is_linebreak c then [[]] else [[c]])"
| "splitlines (c # d # cs) =
     (if c = CR \<and> d = LF then [] # splitlines cs
      else if is_linebreak c then [] # splitlines (d # cs)
      else (case splitlines (d # cs) of
              [] \<Rightarrow> [[c]]
            | l # ls \<Rightarrow> (c # l) # ls))"

text \<open>\<open>"\n".join(xs)\<close>.\<close>

fun join :: "string list \<Rightarrow> string" where
  "join [] = []"
| "join [x] = x"
| "join (x # y # ys) = x @ LF # join (y # ys)"

text \<open>\<open>s.startswith(p)\<close>.\<close>

definition startswith :: "string \<Rightarrow> string \<Rightarrow> bool" where
  "startswith s p = prefix p s"

text \<open>\<open>k in s\<close> on strings: \<open>k\<close> occurs in \<open>s\<close> as a contiguous substring.\<close>

fun py_in :: "string \<Rightarrow> string \<Rightarrow> bool" where
  "py_in k [] = (k = [])"
| "py_in k (c # cs) = (prefix k (c # cs) \<or> py_in k cs)"

text \<open>
  \<open>str.lower\<close>: on U+0000..U+00FF it maps A..Z and U+00C0..U+00DE (without the
  multiplication sign U+00D7) to the code point 32 above, and nothing else.
\<close>

definition lower_char :: "char \<Rightarrow> char" where
  "lower_char c =
     (let n = (of_char c :: nat)
      in if (65 \<le> n \<and> n \<le> 90) \<or> (192 \<le> n \<and> n \<le> 222 \<and> n \<noteq> 215)
         then char_of (n + 32) else c)"

definition lower :: "string \<Rightarrow> string" where
  "lower s = map lower_char s"

section \<open>The scenario pipeline of \<open>app.py\<close>\<close>

definition HAPPY_KEYWORDS :: "string list" where
  "HAPPY_KEYWORDS = [''login'', ''submit'', ''approve'']"

text \<open>
  The \<open>for\<close> loop of \<open>split_scenarios\<close>, with its two variables \<open>blocks\<close> and \<open>current\<close> as the
  state: a line whose stripped text starts with \<open>Scenario:\<close> closes a non-empty \<open>current\<close>,
  and every line is appended to \<open>current\<close>.
\<close>

fun split_loop :: "string list \<Rightarrow> string list \<Rightarrow> string list \<Rightarrow> string list \<times> string list" where
  "split_loop blocks current [] = (blocks, current)"
| "split_loop blocks current (line # rest) =
     (if startswith (strip line) ''Scenario:''
      then (if current \<noteq> []
            then split_loop (blocks @ [strip (join current)]) ([] @ [line]) rest
            else split_loop blocks (current @ [line]) rest)
      else split_loop blocks (current @ [line]) rest)"

definition split_scenarios :: "string \<Rightarrow> string list" where
  "split_scenarios gherkin_text =
     (case split_loop [] [] (splitlines gherkin_text) of
        (blocks, current) \<Rightarrow>
          if current \<noteq> [] then blocks @ [strip (join current)] else blocks)"

definition is_valid_scenario :: "string \<Rightarrow> bool" where
  "is_valid_scenario text = list_all (\<lambda>k. py_in k text) [''Given'', ''When'', ''Then'']"

definition is_happy_path :: "string \<Rightarrow> bool" where
  "is_happy_path text =
     (let lower = lower text
      in py_in ''happy path'' lower \<or> (py_in ''success'' lower \<and> py_in ''valid'' lower))"

definition contains_known_actions :: "string \<Rightarrow> bool" where
  "contains_known_actions text =
     (let lower = lower text in list_ex (\<lambda>k. py_in k lower) HAPPY_KEYWORDS)"

text \<open>
  The dictionary returned by \<open>validate_and_select_happy\<close> and its nested \<open>summary\<close>. The keys
  \<open>total\<close>, \<open>valid\<close> and \<open>happy\<close> of the summary carry the suffix \<open>_count\<close> here, since a record
  field is a constant and the outer dictionary has \<open>valid\<close> and \<open>happy\<close> too.
\<close>

record pipeline_summary =
  total_count :: nat
  valid_count :: nat
  happy_count :: nat
  has_required_actions :: bool

record pipeline_result =
  all :: "string list"
  valid :: "string list"
  happy :: "string list"
  summary :: pipeline_summary

definition validate_and_select_happy :: "string \<Rightarrow> pipeline_result" where
  "validate_and_select_happy gherkin_text =
     (let all_scenarios = split_scenarios gherkin_text;
          valid = filter is_valid_scenario all_scenarios;
          happy = filter (\<lambda>s. contains_known_actions s \<and> is_happy_path s) valid
      in \<lparr> all = all_scenarios,
           valid = valid,
           happy = happy,
           summary = \<lparr> total_count = length all_scenarios,
                       valid_count = length valid,
                       happy_count = length happy,
                       has_required_actions = list_all contains_known_actions happy \<rparr> \<rparr>)"

section \<open>The feature file\<close>

definition feature_header :: string where
  "feature_header =
     ''Feature: LLM generated login flows'' @ [LF] @
     ''  As a user of the sample web app'' @ [LF] @
     ''  I want to login and access the dashboard'' @ [LF] @
     ''  So that I can use the application features'' @ [LF, LF]"

text \<open>The list comprehension \<open>["  " + line if line.strip() else "" for line in ...]\<close>, per line.\<close>

definition indent_line :: "string \<Rightarrow> string" where
  "indent_line line = (if strip line \<noteq> [] then ''  '' @ line else [])"

text \<open>The loop that builds \<open>feature_body\<close>, started from the empty string.\<close>

fun feature_body_loop :: "string \<Rightarrow> string list \<Rightarrow> string" where
  "feature_body_loop feature_body [] = feature_body"
| "feature_body_loop feature_body (s # rest) =
     feature_body_loop
       (feature_body @ (join (map indent_line (splitlines s)) @ [LF, LF])) rest"

definition feature_content :: "string list \<Rightarrow> string" where
  "feature_content happy_blocks = feature_header @ feature_body_loop [] happy_blocks"

section \<open>Inputs of the examples\<close>

text \<open>The eight-line example text, its lines joined by newlines.\<close>

definition login_example :: string where
  "login_example = join
     [''Feature: Login'',
      ''Scenario: Successful login'',
      ''Given a valid user'',
      ''When they submit valid credentials'',
      ''Then they reach the dashboard and see a success message'',
      ''Scenario: Invalid login'',
      ''Given a user'',
      ''When they submit'']"

text \<open>A one-line scenario that is valid, names an action and signals success.\<close>

definition happy_example :: string where
  "happy_example = ''Scenario: ok Given a valid user When they submit Then success''"

text \<open>A negative scenario without \<open>Given\<close>, and the same scenario with it.\<close>

definition negative_example :: string where
  "negative_example = ''When login with invalid credentials Then no success message''"

definition negative_valid_example :: string where
  "negative_valid_example =
     ''Given a user When login with invalid credentials Then no success message''"

section \<open>The line runs behind the blocks\<close>

text \<open>The test of the loop of \<open>split_scenarios\<close> on one line.\<close>

definition is_marker :: "string \<Rightarrow> bool" where
  "is_marker line = startswith (strip line) ''Scenario:''"

text \<open>
  The runs of lines that the blocks are made of, read off the line list from its end: a
  line opens a run of its own when the run after it starts with a marker line, and joins
  that run otherwise.
\<close>

fun chunks :: "string list \<Rightarrow> string list list" where
  "chunks [] = []"
| "chunks (l # ls) =
     (case chunks ls of
        [] \<Rightarrow> [[l]]
      | g # gs \<Rightarrow> if is_marker (hd g) then [l] # g # gs else (l # g) # gs)"

text \<open>The last statement of \<open>split_scenarios\<close>, on the state the loop leaves.\<close>

definition flush :: "string list \<times> string list \<Rightarrow> string list" where
  "flush st = (case st of (blocks, current) \<Rightarrow>
     if current \<noteq> [] then blocks @ [strip (join current)] else blocks)"

text \<open>
  A line is blank when \<open>line.strip()\<close> is empty. What \<open>strip\<close> does to a joined run, line
  by line: the blank lines at the front go and the first line left loses its leading
  whitespace; the blank lines at the end go and the last line left loses its trailing
  whitespace.
\<close>

definition blank_line :: "string \<Rightarrow> bool" where
  "blank_line l = (strip l = [])"

definition lstrip_lines :: "string list \<Rightarrow> string list" where
  "lstrip_lines g = (case dropWhile blank_line g of [] \<Rightarrow> [] | l # ls \<Rightarrow> lstrip l # ls)"

definition rstrip_lines :: "string list \<Rightarrow> string list" where
  "rstrip_lines g =
     (case dropWhile blank_line (rev g) of [] \<Rightarrow> [] | l # ls \<Rightarrow> rev ls @ [rstrip l])"

definition trim_lines :: "string list \<Rightarrow> string list" where
  "trim_lines g = rstrip_lines (lstrip_lines g)"

text \<open>Inputs with and without a preamble, without a marker, and with indented lines.\<close>

definition preamble_example :: string where
  "preamble_example = join [''Feature: F'', ''Scenario: A'', ''  Given x'']"

definition plain_example :: string where
  "plain_example = join [''plain text'', ''more'']"

definition indented_example :: string where
  "indented_example = join [''  Scenario: A'', ''  Given x  '']"

section \<open>Lines of the feature file\<close>

text \<open>The four lines of the fixed header, without the empty line that ends it.\<close>

definition header_lines :: "string list" where
  "header_lines =
     [''Feature: LLM generated login flows'',
      ''  As a user of the sample web app'',
      ''  I want to login and access the dashboard'',
      ''  So that I can use the application features'']"

text \<open>The number of blank lines a list of lines starts with.\<close>

definition blank_run :: "string list \<Rightarrow> nat" where
  "blank_run ls = length (takeWhile blank_line ls)"

text \<open>
  An input with two happy scenarios, a valid scenario that names no action, and a block
  with a blank line inside.
\<close>

definition two_happy_text :: string where
  "two_happy_text = join [happy_example, happy_example]"

definition no_action_example :: string where
  "no_action_example = ''Scenario: x Given a When b Then c''"

definition spaced_block :: string where
  "spaced_block = join [''Scenario: B'', '' '', ''  Given x'']"

section \<open>Substring tests\<close>

lemma py_in_sublist: "py_in k s = sublist k s"
  by (induction s) (simp_all add: sublist_Cons_right)

lemma py_in_iff: "py_in k s \<longleftrightarrow> (\<exists>p q. s = p @ k @ q)"
  by (simp add: py_in_sublist sublist_def)

lemma contains_known_actions_iff:
  "contains_known_actions b \<longleftrightarrow>
     (\<exists>p q. lower b = p @ ''login'' @ q) \<or> (\<exists>p q. lower b = p @ ''submit'' @ q) \<or>
     (\<exists>p q. lower b = p @ ''approve'' @ q)"
  unfolding contains_known_actions_def HAPPY_KEYWORDS_def Let_def
  by (simp add: py_in_iff)

lemma is_happy_path_iff:
  "is_happy_path b \<longleftrightarrow>
     (\<exists>p q. lower b = p @ ''happy path'' @ q) \<or>
     ((\<exists>p q. lower b = p @ ''success'' @ q) \<and> (\<exists>p q. lower b = p @ ''valid'' @ q))"
  unfolding is_happy_path_def Let_def by (simp only: py_in_iff)

lemma happy_eq_filter:
  "happy (validate_and_select_happy t) =
     filter (\<lambda>s. contains_known_actions s \<and> is_happy_path s) (valid (validate_and_select_happy t))"
  by (simp add: validate_and_select_happy_def Let_def)

section \<open>The example of the specification\<close>

text \<open>
  C1, as stated: on the eight-line example \<open>split_scenarios\<close> returns 2 blocks and the summary
  has \<open>total = 2\<close>. It does not: the line \<open>Feature: Login\<close> before the first marker is closed
  as a block of its own when the first \<open>Scenario:\<close> line arrives, so neither number is 2.
\<close>

theorem login_example_two_blocks_counterexample:
  "length (split_scenarios login_example) \<noteq> 2 \<and>
   total_count (summary (validate_and_select_happy login_example)) \<noteq> 2"
  unfolding login_example_def by code_simp

text \<open>
  C1, amended: on the eight-line example \<open>split_scenarios\<close> returns exactly 3 blocks (the
  preamble \<open>Feature: Login\<close> and the two scenarios), and the summary is \<open>total = 3\<close>,
  \<open>valid = 1\<close>, \<open>happy = 1\<close>; the one happy block is the first scenario.
\<close>

theorem login_example_three_blocks:
  "split_scenarios login_example =
     [''Feature: Login'',
      join [''Scenario: Successful login'', ''Given a valid user'',
            ''When they submit valid credentials'',
            ''Then they reach the dashboard and see a success message''],
      join [''Scenario: Invalid login'', ''Given a user'', ''When they submit'']] \<and>
   summary (validate_and_select_happy login_example) =
     \<lparr>total_count = 3, valid_count = 1, happy_count = 1, has_required_actions = True\<rparr> \<and>
   happy (validate_and_select_happy login_example) =
     [join [''Scenario: Successful login'', ''Given a valid user'',
            ''When they submit valid credentials'',
            ''Then they reach the dashboard and see a success message'']]"
  unfolding login_example_def by code_simp

section \<open>Validity and the happy-path predicates\<close>

text \<open>
  C5: \<open>is_valid_scenario b\<close> is true exactly when \<open>b\<close> contains each of the literal
  substrings \<open>Given\<close>, \<open>When\<close> and \<open>Then\<close> somewhere: any text may stand before and after each
  occurrence, so neither their order, their number nor their place in a line matters, and
  the characters are compared as they are, without case folding.
\<close>

theorem is_valid_scenario_iff:
  "is_valid_scenario b \<longleftrightarrow>
     (\<exists>p q. b = p @ ''Given'' @ q) \<and> (\<exists>p q. b = p @ ''When'' @ q) \<and> (\<exists>p q. b = p @ ''Then'' @ q)"
  unfolding is_valid_scenario_def by (simp add: py_in_iff)

text \<open>
  C4: a block is taken as happy exactly when both predicates hold on it. The first,
  \<open>contains_known_actions\<close>, holds iff the lower-cased text contains one of \<open>login\<close>,
  \<open>submit\<close>, \<open>approve\<close>; the second, \<open>is_happy_path\<close>, holds iff the lower-cased text contains
  \<open>happy path\<close>, or contains both \<open>success\<close> and \<open>valid\<close>, each anywhere. The orchestrator
  keeps of the valid blocks exactly those on which both hold.
\<close>

theorem happy_iff_action_and_success:
  "(contains_known_actions b \<longleftrightarrow>
      (\<exists>p q. lower b = p @ ''login'' @ q) \<or> (\<exists>p q. lower b = p @ ''submit'' @ q) \<or>
      (\<exists>p q. lower b = p @ ''approve'' @ q)) \<and>
   (is_happy_path b \<longleftrightarrow>
      (\<exists>p q. lower b = p @ ''happy path'' @ q) \<or>
      ((\<exists>p q. lower b = p @ ''success'' @ q) \<and> (\<exists>p q. lower b = p @ ''valid'' @ q))) \<and>
   happy (validate_and_select_happy t) =
     filter (\<lambda>s. contains_known_actions s \<and> is_happy_path s)
       (valid (validate_and_select_happy t))"
  using contains_known_actions_iff [of b] is_happy_path_iff [of b] happy_eq_filter [of t]
  by blast

lemma valid_in_invalid: "s = p @ ''invalid'' @ q \<Longrightarrow> \<exists>p' q'. s = p' @ ''valid'' @ q'"
proof -
  assume "s = p @ ''invalid'' @ q"
  then have "s = (p @ ''in'') @ ''valid'' @ q" by simp
  then show ?thesis by blast
qed

section \<open>The orchestrator\<close>

text \<open>
  C9: for every input, each block of the happy sequence satisfies
  \<open>contains_known_actions\<close>, and the summary field \<open>has_required_actions\<close> is true.
\<close>

theorem has_required_actions_always:
  "(\<forall>s \<in> set (happy (validate_and_select_happy t)). contains_known_actions s) \<and>
   has_required_actions (summary (validate_and_select_happy t)) = True"
  by (simp add: validate_and_select_happy_def Let_def list_all_iff)

theorem has_required_actions_always_witness:
  "happy (validate_and_select_happy happy_example) = [happy_example] \<and>
   contains_known_actions happy_example \<and>
   has_required_actions (summary (validate_and_select_happy happy_example)) = True"
proof -
  have "happy (validate_and_select_happy happy_example) = [happy_example]"
    unfolding happy_example_def by code_simp
  then show ?thesis
    using has_required_actions_always [of happy_example] by simp
qed

text \<open>
  C10, as stated: a negative scenario that names a known action, \<open>invalid\<close> and \<open>success\<close>,
  such as the text \<open>When login with invalid credentials Then no success message\<close>, is
  selected into the happy sequence. That text is not: both predicates hold on it, but it
  has no \<open>Given\<close>, so the validity filter drops it before the happy filter runs.
\<close>

theorem negative_example_not_selected_counterexample:
  "is_happy_path negative_example \<and> contains_known_actions negative_example \<and>
   split_scenarios negative_example = [negative_example] \<and>
   happy (validate_and_select_happy negative_example) = []"
  unfolding negative_example_def by code_simp

text \<open>
  C10, amended: for every block text whose lower-cased form contains \<open>success\<close> and
  \<open>invalid\<close>, \<open>is_happy_path\<close> returns true, since \<open>valid\<close> occurs inside \<open>invalid\<close>;
  so a block of the input that is also valid (contains \<open>Given\<close>, \<open>When\<close>, \<open>Then\<close>) and
  names a known action is selected into the happy sequence.
\<close>

theorem invalid_counts_as_valid:
  "((\<exists>p q. lower b = p @ ''success'' @ q) \<and> (\<exists>p q. lower b = p @ ''invalid'' @ q)
      \<longrightarrow> is_happy_path b) \<and>
   ((\<exists>p q. lower b = p @ ''success'' @ q) \<and> (\<exists>p q. lower b = p @ ''invalid'' @ q) \<and>
    contains_known_actions b \<and> is_valid_scenario b \<and> b \<in> set (split_scenarios t)
      \<longrightarrow> b \<in> set (happy (validate_and_select_happy t)))"
proof -
  have h: "is_happy_path b"
    if "\<exists>p q. lower b = p @ ''success'' @ q" and "\<exists>p q. lower b = p @ ''invalid'' @ q"
    using that valid_in_invalid [of "lower b"] is_happy_path_iff [of b] by blast
  show ?thesis
    using h by (auto simp: validate_and_select_happy_def Let_def)
qed

theorem invalid_counts_as_valid_witness:
  "(\<exists>p q. lower negative_valid_example = p @ ''success'' @ q) \<and>
   (\<exists>p q. lower negative_valid_example = p @ ''invalid'' @ q) \<and>
   \<not> py_in ''happy path'' (lower negative_valid_example) \<and>
   contains_known_actions negative_valid_example \<and>
   is_valid_scenario negative_valid_example \<and>
   negative_valid_example \<in> set (split_scenarios negative_valid_example) \<and>
   is_happy_path negative_valid_example \<and>
   negative_valid_example \<in> set (happy (validate_and_select_happy negative_valid_example))"
proof -
  have s: "py_in ''success'' (lower negative_valid_example)"
    unfolding negative_valid_example_def by code_simp
  have i: "py_in ''invalid'' (lower negative_valid_example)"
    unfolding negative_valid_example_def by code_simp
  have n: "\<not> py_in ''happy path'' (lower negative_valid_example)"
    unfolding negative_valid_example_def by code_simp
  have c: "contains_known_actions negative_valid_example"
    unfolding negative_valid_example_def by code_simp
  have v: "is_valid_scenario negative_valid_example"
    unfolding negative_valid_example_def by code_simp
  have m: "split_scenarios negative_valid_example = [negative_valid_example]"
    unfolding negative_valid_example_def by code_simp
  from s i have e: "(\<exists>p q. lower negative_valid_example = p @ ''success'' @ q) \<and>
      (\<exists>p q. lower negative_valid_example = p @ ''invalid'' @ q)"
    by (simp only: py_in_iff)
  show ?thesis
    using e n c v m
      invalid_counts_as_valid [of negative_valid_example negative_valid_example]
    by simp
qed

section \<open>Line runs and the loop\<close>

lemma chunks_nonempty: "g \<in> set (chunks ls) \<Longrightarrow> g \<noteq> []"
  by (induction ls arbitrary: g) (auto split: list.splits if_splits)

lemma chunks_Nil_iff: "chunks ls = [] \<longleftrightarrow> ls = []"
  by (cases ls) (auto split: list.splits)

lemma hd_chunks: "chunks (l # ls) = g # gs \<Longrightarrow> hd g = l"
  by (auto split: list.splits if_splits)

lemma concat_chunks: "concat (chunks ls) = ls"
  by (induction ls) (auto split: list.splits)

lemma chunks_tail_heads: "g \<in> set (tl (chunks ls)) \<Longrightarrow> is_marker (hd g)"
  by (induction ls arbitrary: g) (auto split: list.splits if_splits)

lemma chunks_inner_lines: "g \<in> set (chunks ls) \<Longrightarrow> l \<in> set (tl g) \<Longrightarrow> \<not> is_marker l"
proof (induction ls arbitrary: g l)
  case Nil
  then show ?case by simp
next
  case (Cons a ls)
  show ?case
  proof (cases "chunks ls")
    case Nil
    with Cons.prems show ?thesis by simp
  next
    case (Cons h hs)
    have hne: "h \<noteq> []" using chunks_nonempty [of h ls] Cons by simp
    show ?thesis
    proof (cases "is_marker (hd h)")
      case True
      with Cons Cons.prems Cons.IH show ?thesis by auto
    next
      case False
      with Cons Cons.prems have "g = a # h \<or> g \<in> set hs" by auto
      then show ?thesis
      proof
        assume g: "g = a # h"
        with Cons.prems have "l \<in> set h" by simp
        then have "l = hd h \<or> l \<in> set (tl h)" using hne by (cases h) auto
        then show ?thesis
          using False Cons.IH [of h l] Cons by auto
      next
        assume "g \<in> set hs"
        then show ?thesis using Cons.IH [of g l] Cons Cons.prems by simp
      qed
    qed
  qed
qed

lemma chunks_no_marker: "ls \<noteq> [] \<Longrightarrow> \<forall>l \<in> set (tl ls). \<not> is_marker l \<Longrightarrow> chunks ls = [ls]"
proof (induction ls)
  case Nil
  then show ?case by simp
next
  case (Cons a ls)
  show ?case
  proof (cases ls)
    case Nil
    then show ?thesis by simp
  next
    case (Cons b bs)
    with Cons.prems Cons.IH have "chunks ls = [ls]" and "\<not> is_marker b" by auto
    then show ?thesis using Cons by simp
  qed
qed

text \<open>The loop, its final flush included, against the chunks.\<close>

lemma split_loop_chunks:
  "flush (split_loop blocks current ls) =
     blocks @ map (\<lambda>g. strip (join g))
       (if current = [] then chunks ls
        else (case chunks ls of
                [] \<Rightarrow> [current]
              | g # gs \<Rightarrow> if is_marker (hd g) then current # g # gs else (current @ g) # gs))"
proof (induction ls arbitrary: blocks current)
  case Nil
  then show ?case by (simp add: flush_def)
next
  case (Cons l ls)
  show ?case
  proof (cases "chunks ls")
    case Nil
    then show ?thesis
      using Cons.IH by (simp add: is_marker_def)
  next
    case (Cons g gs)
    then show ?thesis
      using Cons.IH by (simp add: is_marker_def)
  qed
qed

lemma split_scenarios_chunks:
  "split_scenarios t = map (\<lambda>g. strip (join g)) (chunks (splitlines t))"
  using split_loop_chunks [of "[]" "[]" "splitlines t"]
  by (simp add: split_scenarios_def flush_def split: prod.splits)

section \<open>Stripping a joined run\<close>

lemma isspace_LF: "isspace LF"
  by (simp add: isspace_def LF_def)

lemma lstrip_Nil_iff: "lstrip s = [] \<longleftrightarrow> (\<forall>c \<in> set s. isspace c)"
  by (simp add: lstrip_def)

lemma rstrip_Nil_iff: "rstrip s = [] \<longleftrightarrow> (\<forall>c \<in> set s. isspace c)"
  by (simp add: rstrip_def)

lemma set_lstrip: "set (lstrip s) \<subseteq> set s"
  unfolding lstrip_def by (rule set_dropWhileD [THEN subsetI, OF _]) 

lemma strip_Nil_iff: "strip s = [] \<longleftrightarrow> (\<forall>c \<in> set s. isspace c)"
proof
  assume "strip s = []"
  then have a: "\<forall>c \<in> set (lstrip s). isspace c"
    by (simp add: strip_def rstrip_Nil_iff)
  show "\<forall>c \<in> set s. isspace c"
  proof (rule ccontr)
    assume "\<not> (\<forall>c \<in> set s. isspace c)"
    then have "lstrip s \<noteq> []" by (simp add: lstrip_Nil_iff)
    then have "\<not> isspace (hd (lstrip s))"
      unfolding lstrip_def by (rule hd_dropWhile)
    moreover have "hd (lstrip s) \<in> set (lstrip s)"
      using \<open>lstrip s \<noteq> []\<close> by simp
    ultimately show False using a by blast
  qed
next
  assume "\<forall>c \<in> set s. isspace c"
  then have "lstrip s = []" by (simp add: lstrip_Nil_iff)
  then show "strip s = []" by (simp add: strip_def rstrip_def)
qed

lemma blank_line_iff: "blank_line l \<longleftrightarrow> (\<forall>c \<in> set l. isspace c)"
  by (simp add: blank_line_def strip_Nil_iff)

lemma lstrip_append:
  "lstrip (a @ b) = (if blank_line a then lstrip b else lstrip a @ b)"
  by (simp add: lstrip_def dropWhile_append blank_line_iff)

lemma rstrip_append:
  "rstrip (a @ b) = (if blank_line b then rstrip a else a @ rstrip b)"
  by (simp add: rstrip_def dropWhile_append blank_line_iff)

lemma blank_line_Cons: "blank_line (c # l) \<longleftrightarrow> isspace c \<and> blank_line l"
  by (simp add: blank_line_iff)

lemma blank_line_Nil: "blank_line []"
  by (simp add: blank_line_iff)

lemma lstrip_blank: "blank_line l \<Longrightarrow> lstrip l = []"
  by (simp add: lstrip_Nil_iff blank_line_iff)

lemma rstrip_blank: "blank_line l \<Longrightarrow> rstrip l = []"
  by (simp add: rstrip_Nil_iff blank_line_iff)

lemma join_Cons: "join (x # xs) = (if xs = [] then x else x @ LF # join xs)"
  by (cases xs) simp_all

lemma join_snoc: "join (xs @ [x]) = (if xs = [] then x else join xs @ LF # x)"
  by (induction xs rule: join.induct) simp_all

lemma lstrip_join: "lstrip (join g) = join (lstrip_lines g)"
proof (induction g)
  case Nil
  then show ?case by (simp add: lstrip_lines_def lstrip_def)
next
  case (Cons x g)
  show ?case
  proof (cases "blank_line x")
    case True
    have l: "lstrip_lines (x # g) = lstrip_lines g"
      using True by (simp add: lstrip_lines_def)
    show ?thesis
    proof (cases "g = []")
      case True
      then show ?thesis
        using \<open>blank_line x\<close> by (simp add: lstrip_lines_def lstrip_blank)
    next
      case False
      have "lstrip (x @ LF # join g) = lstrip (LF # join g)"
        using True by (simp add: lstrip_append)
      also have "\<dots> = lstrip (join g)"
        by (simp add: lstrip_def isspace_LF)
      finally show ?thesis using False Cons.IH l by (simp add: join_Cons)
    qed
  next
    case False
    have l: "lstrip_lines (x # g) = lstrip x # g"
      using False by (simp add: lstrip_lines_def)
    show ?thesis
      using False by (simp add: l join_Cons lstrip_append)
  qed
qed

lemma rstrip_lines_snoc:
  "rstrip_lines (g @ [x]) = (if blank_line x then rstrip_lines g else g @ [rstrip x])"
  by (simp add: rstrip_lines_def)

lemma rstrip_join: "rstrip (join g) = join (rstrip_lines g)"
proof (induction g rule: rev_induct)
  case Nil
  then show ?case by (simp add: rstrip_lines_def rstrip_def)
next
  case (snoc x g)
  show ?case
  proof (cases "blank_line x")
    case True
    show ?thesis
    proof (cases "g = []")
      case True
      then show ?thesis
        using \<open>blank_line x\<close> by (simp add: rstrip_lines_def rstrip_blank)
    next
      case False
      have "rstrip (join g @ LF # x) = rstrip (join g)"
        using True by (simp add: rstrip_append blank_line_Cons isspace_LF)
      then show ?thesis
        using False True snoc.IH by (simp add: join_snoc rstrip_lines_snoc)
    qed
  next
    case False
    have "rstrip ([LF] @ x) = [LF] @ rstrip x"
      using False by (simp only: rstrip_append if_False)
    then have r: "rstrip (LF # x) = LF # rstrip x" by simp
    have nb: "\<not> blank_line (LF # x)"
      using False by (simp add: blank_line_Cons)
    have "rstrip (join g @ LF # x) = join g @ LF # rstrip x"
      using nb r by (simp add: rstrip_append)
    then show ?thesis
      using False by (simp add: join_snoc rstrip_lines_snoc)
  qed
qed

lemma strip_join: "strip (join g) = join (trim_lines g)"
  by (simp add: strip_def trim_lines_def lstrip_join rstrip_join)

section \<open>Lines of a text\<close>

lemma is_linebreak_LF: "is_linebreak LF"
  by (simp add: is_linebreak_def LF_def)

lemma is_linebreak_CR: "is_linebreak CR"
  by (simp add: is_linebreak_def CR_def)

lemma CR_neq_LF: "CR \<noteq> LF"
  by (simp add: CR_def LF_def)

lemma not_linebreak_space: "\<not> is_linebreak (CHR '' '')"
  by (simp add: is_linebreak_def)

lemma splitlines_Nil_iff: "splitlines s = [] \<longleftrightarrow> s = []"
  by (induction s rule: splitlines.induct) (auto split: list.splits)

lemma splitlines_no_linebreak:
  "l \<in> set (splitlines s) \<Longrightarrow> c \<in> set l \<Longrightarrow> \<not> is_linebreak c"
proof (induction s arbitrary: l rule: splitlines.induct)
  case 1
  then show ?case by simp
next
  case (2 a)
  then show ?case by (auto split: if_splits)
next
  case (3 a d cs)
  show ?case
  proof (cases "a = CR \<and> d = LF")
    case True
    with 3 show ?thesis by auto
  next
    case False
    show ?thesis
    proof (cases "is_linebreak a")
      case True
      with False 3 show ?thesis by auto
    next
      case nb: False
      obtain h hs where h: "splitlines (d # cs) = h # hs"
        using splitlines_Nil_iff [of "d # cs"] by (cases "splitlines (d # cs)") auto
      with False nb "3.prems" have "l = a # h \<or> l \<in> set hs" by auto
      then show ?thesis
      proof
        assume "l = a # h"
        with "3.prems" have "c = a \<or> c \<in> set h" by auto
        then show ?thesis
          using nb "3.IH"(3) [OF False nb, of h] h by auto
      next
        assume "l \<in> set hs"
        then show ?thesis
          using "3.IH"(3) [OF False nb, of l] h "3.prems" by auto
      qed
    qed
  qed
qed

lemma splitlines_Cons_plain:
  "\<not> is_linebreak c \<Longrightarrow>
   splitlines (c # s) = (case splitlines s of [] \<Rightarrow> [[c]] | l # ls \<Rightarrow> (c # l) # ls)"
  using is_linebreak_CR by (cases s) auto

lemma splitlines_Cons_LF: "splitlines (LF # s) = [] # splitlines s"
  by (cases s) (simp_all add: is_linebreak_LF CR_neq_LF [symmetric])

lemma splitlines_line:
  "\<forall>c \<in> set l. \<not> is_linebreak c \<Longrightarrow> splitlines (l @ LF # s) = l # splitlines s"
  by (induction l) (simp_all add: splitlines_Cons_LF splitlines_Cons_plain)

lemma splitlines_join:
  "ls \<noteq> [] \<Longrightarrow> \<forall>l \<in> set ls. \<forall>c \<in> set l. \<not> is_linebreak c \<Longrightarrow>
   splitlines (join ls @ LF # s) = ls @ splitlines s"
proof (induction ls rule: join.induct)
  case 1
  then show ?case by simp
next
  case (2 x)
  then show ?case by (simp add: splitlines_line)
next
  case (3 x y ys)
  then have "splitlines (join (y # ys) @ LF # s) = (y # ys) @ splitlines s" by simp
  moreover have "splitlines (x @ LF # (join (y # ys) @ LF # s)) =
      x # splitlines (join (y # ys) @ LF # s)"
    using 3 by (intro splitlines_line) simp
  ultimately show ?case by simp
qed

lemma join_splitlines_only_LF:
  "\<forall>c \<in> set t. is_linebreak c \<longrightarrow> c = LF \<Longrightarrow>
   join (splitlines t) = (if t \<noteq> [] \<and> last t = LF then butlast t else t)"
proof (induction t)
  case Nil
  then show ?case by simp
next
  case (Cons a t)
  then have IH: "join (splitlines t) = (if t \<noteq> [] \<and> last t = LF then butlast t else t)"
    by simp
  show ?case
  proof (cases "is_linebreak a")
    case True
    with Cons.prems have a: "a = LF" by simp
    show ?thesis
      using IH by (simp add: a splitlines_Cons_LF join_Cons splitlines_Nil_iff)
  next
    case False
    then have na: "a \<noteq> LF" using is_linebreak_LF by auto
    show ?thesis
    proof (cases "splitlines t")
      case Nil
      then show ?thesis
        using False na by (simp add: splitlines_Cons_plain splitlines_Nil_iff)
    next
      case (Cons h hs)
      then have "t \<noteq> []" using splitlines_Nil_iff [of t] by auto
      then show ?thesis
        using False na IH Cons by (auto simp: splitlines_Cons_plain join_Cons)
    qed
  qed
qed

lemma strip_butlast_LF: "t \<noteq> [] \<Longrightarrow> last t = LF \<Longrightarrow> strip (butlast t) = strip t"
proof -
  assume "t \<noteq> []" and "last t = LF"
  then have t: "t = butlast t @ [LF]"
    using append_butlast_last_id [of t] by simp
  have l: "lstrip (butlast t @ [LF]) =
      (if blank_line (butlast t) then [] else lstrip (butlast t) @ [LF])"
    by (simp add: lstrip_def dropWhile_append blank_line_iff isspace_LF)
  have "rstrip (lstrip (butlast t @ [LF])) = rstrip (lstrip (butlast t))"
    by (simp add: l rstrip_append blank_line_Cons blank_line_Nil isspace_LF lstrip_blank
        rstrip_def)
  then show ?thesis
    using t by (simp add: strip_def)
qed

lemma strip_join_splitlines:
  "\<forall>c \<in> set t. is_linebreak c \<longrightarrow> c = LF \<Longrightarrow> strip (join (splitlines t)) = strip t"
  by (simp add: join_splitlines_only_LF strip_butlast_LF)

lemma lstrip_lines_id:
  "g \<noteq> [] \<Longrightarrow> hd g \<noteq> [] \<Longrightarrow> lstrip (hd g) = hd g \<Longrightarrow> lstrip_lines g = g"
proof -
  assume g: "g \<noteq> []" and h: "hd g \<noteq> []" and l: "lstrip (hd g) = hd g"
  have "\<not> blank_line (hd g)"
    using h l lstrip_blank [of "hd g"] by auto
  then show ?thesis
    using g l by (cases g) (simp_all add: lstrip_lines_def)
qed

lemma rstrip_lines_id:
  "g \<noteq> [] \<Longrightarrow> last g \<noteq> [] \<Longrightarrow> rstrip (last g) = last g \<Longrightarrow> rstrip_lines g = g"
proof -
  assume g: "g \<noteq> []" and h: "last g \<noteq> []" and l: "rstrip (last g) = last g"
  have nb: "\<not> blank_line (last g)"
    using h l rstrip_blank [of "last g"] by auto
  have "g = butlast g @ [last g]" using g by simp
  then have "rstrip_lines g = rstrip_lines (butlast g @ [last g])" by simp
  also have "\<dots> = butlast g @ [rstrip (last g)]"
    using nb by (simp only: rstrip_lines_snoc if_False)
  finally show ?thesis using g l by simp
qed

lemma trim_lines_id:
  "g \<noteq> [] \<Longrightarrow> hd g \<noteq> [] \<Longrightarrow> lstrip (hd g) = hd g \<Longrightarrow> last g \<noteq> [] \<Longrightarrow>
   rstrip (last g) = last g \<Longrightarrow> trim_lines g = g"
  by (simp add: trim_lines_def lstrip_lines_id rstrip_lines_id)

section \<open>The splitter\<close>

text \<open>
  C6: \<open>split_scenarios\<close> scans the lines of the input in order. The blocks are the runs
  \<open>chunks\<close> of the line list, each joined by newlines and stripped: the runs together are
  the line list, no run is empty, every run after the first starts with a line whose
  stripped text starts with \<open>Scenario:\<close>, and no other line of a run is such a line, so a
  new block starts at every marker line and all other lines, a preamble before the first
  marker included, go to the open block; the last run is emitted at the end of the input.
  A non-empty input without a marker line gives exactly one block, the stripped join of
  all its lines, which is the stripped input itself when \<open>\n\<close> is its only line boundary;
  the empty string gives no block.
\<close>

theorem split_scenarios_algorithm:
  "split_scenarios t = map (\<lambda>g. strip (join g)) (chunks (splitlines t)) \<and>
   concat (chunks (splitlines t)) = splitlines t \<and>
   (\<forall>g \<in> set (chunks (splitlines t)). g \<noteq> [] \<and> (\<forall>l \<in> set (tl g). \<not> is_marker l)) \<and>
   (\<forall>g \<in> set (tl (chunks (splitlines t))). is_marker (hd g)) \<and>
   (t \<noteq> [] \<and> (\<forall>l \<in> set (splitlines t). \<not> is_marker l) \<longrightarrow>
      split_scenarios t = [strip (join (splitlines t))]) \<and>
   (t \<noteq> [] \<and> (\<forall>l \<in> set (splitlines t). \<not> is_marker l) \<and>
    (\<forall>c \<in> set t. is_linebreak c \<longrightarrow> c = LF) \<longrightarrow> split_scenarios t = [strip t]) \<and>
   split_scenarios [] = []"
proof -
  let ?ls = "splitlines t"
  have one: "split_scenarios t = [strip (join ?ls)]"
    if t: "t \<noteq> []" and n: "\<forall>l \<in> set ?ls. \<not> is_marker l"
  proof -
    have ne: "?ls \<noteq> []" using t by (simp add: splitlines_Nil_iff)
    then have "\<forall>l \<in> set (tl ?ls). \<not> is_marker l"
      using n by (meson list.set_sel(2))
    then have "chunks ?ls = [?ls]" using ne by (rule chunks_no_marker [rotated])
    then show ?thesis by (simp add: split_scenarios_chunks)
  qed
  have c3: "\<forall>g \<in> set (chunks ?ls). g \<noteq> [] \<and> (\<forall>l \<in> set (tl g). \<not> is_marker l)"
    using chunks_nonempty chunks_inner_lines by blast
  have c4: "\<forall>g \<in> set (tl (chunks ?ls)). is_marker (hd g)"
    using chunks_tail_heads by blast
  have c6: "t \<noteq> [] \<and> (\<forall>l \<in> set ?ls. \<not> is_marker l) \<and>
    (\<forall>c \<in> set t. is_linebreak c \<longrightarrow> c = LF) \<longrightarrow> split_scenarios t = [strip t]"
    using one strip_join_splitlines [of t] by simp
  have c7: "split_scenarios [] = []"
    by (simp add: split_scenarios_chunks)
  show ?thesis
    using split_scenarios_chunks [of t] concat_chunks [of ?ls] c3 c4 one c6 c7 by blast
qed

theorem split_scenarios_algorithm_witness:
  "chunks (splitlines preamble_example) = [[''Feature: F''], [''Scenario: A'', ''  Given x'']] \<and>
   is_marker ''Scenario: A'' \<and> \<not> is_marker ''  Given x'' \<and>
   split_scenarios preamble_example = [''Feature: F'', join [''Scenario: A'', ''  Given x'']] \<and>
   plain_example \<noteq> [] \<and> splitlines plain_example = [''plain text'', ''more''] \<and>
   \<not> is_marker ''plain text'' \<and> \<not> is_marker ''more'' \<and>
   list_all (\<lambda>c. is_linebreak c = (c = LF)) plain_example \<and>
   split_scenarios plain_example = [strip plain_example] \<and>
   strip plain_example = plain_example"
proof -
  have a: "chunks (splitlines preamble_example) =
      [[''Feature: F''], [''Scenario: A'', ''  Given x'']]"
    unfolding preamble_example_def by code_simp
  have b: "is_marker ''Scenario: A''" "\<not> is_marker ''  Given x''"
    "\<not> is_marker ''plain text''" "\<not> is_marker ''more''"
    by code_simp+
  have c: "strip (join [''Feature: F'']) = ''Feature: F''"
    "strip (join [''Scenario: A'', ''  Given x'']) = join [''Scenario: A'', ''  Given x'']"
    by code_simp+
  have d: "plain_example \<noteq> []" "splitlines plain_example = [''plain text'', ''more'']"
    "strip plain_example = plain_example"
    unfolding plain_example_def by code_simp+
  have e: "list_all (\<lambda>c. is_linebreak c = (c = LF)) plain_example"
    unfolding plain_example_def by code_simp
  then have f: "\<forall>c \<in> set plain_example. is_linebreak c \<longrightarrow> c = LF"
    by (simp add: list_all_iff)
  have "split_scenarios preamble_example =
      [''Feature: F'', join [''Scenario: A'', ''  Given x'']]"
    using split_scenarios_algorithm [of preamble_example] by (simp only: a c list.map)
  moreover have "plain_example \<noteq> [] \<and> (\<forall>l \<in> set (splitlines plain_example). \<not> is_marker l) \<and>
      (\<forall>c \<in> set plain_example. is_linebreak c \<longrightarrow> c = LF)"
    using b d f by simp
  then have "split_scenarios plain_example = [strip plain_example]"
    using split_scenarios_algorithm [of plain_example] by blast
  ultimately show ?thesis
    using a b d e by simp
qed

text \<open>
  C2, as stated: every line left in a block, the first and the last included, is the
  source line character for character. On a two-line input whose lines are indented and
  the second ends in spaces, neither line is blank, yet the block has lost the indentation
  of the first line and the trailing spaces of the last.
\<close>

theorem indented_lines_counterexample:
  "splitlines indented_example = [''  Scenario: A'', ''  Given x  ''] \<and>
   \<not> blank_line ''  Scenario: A'' \<and> \<not> blank_line ''  Given x  '' \<and>
   split_scenarios indented_example = [join [''Scenario: A'', ''  Given x'']] \<and>
   split_scenarios indented_example \<noteq> [join [''  Scenario: A'', ''  Given x  '']]"
  unfolding indented_example_def by code_simp

text \<open>
  C2, amended: each block is the corresponding contiguous run of source lines, joined by
  newlines, with its leading and trailing blank lines removed, the leading whitespace of
  the first line left removed and the trailing whitespace of the last line left removed;
  every other line is kept character for character and in order (a run whose first line
  starts and whose last line ends with a non-space character is kept as it is), and the
  runs together are exactly the source lines in order, none invented or duplicated.
\<close>

theorem split_scenarios_preserves_lines:
  "split_scenarios t = map (\<lambda>g. join (trim_lines g)) (chunks (splitlines t)) \<and>
   concat (chunks (splitlines t)) = splitlines t \<and>
   trim_lines g = rstrip_lines (lstrip_lines g) \<and>
   (g \<noteq> [] \<and> hd g \<noteq> [] \<and> lstrip (hd g) = hd g \<and> last g \<noteq> [] \<and> rstrip (last g) = last g
      \<longrightarrow> trim_lines g = g)"
  using trim_lines_id [of g]
  by (simp add: split_scenarios_chunks strip_join concat_chunks trim_lines_def)

theorem split_scenarios_preserves_lines_witness:
  "[''Scenario: A'', ''  Given x''] \<noteq> [] \<and>
   hd [''Scenario: A'', ''  Given x''] \<noteq> [] \<and>
   lstrip (hd [''Scenario: A'', ''  Given x'']) = hd [''Scenario: A'', ''  Given x''] \<and>
   last [''Scenario: A'', ''  Given x''] \<noteq> [] \<and>
   rstrip (last [''Scenario: A'', ''  Given x'']) = last [''Scenario: A'', ''  Given x''] \<and>
   trim_lines [''Scenario: A'', ''  Given x''] = [''Scenario: A'', ''  Given x''] \<and>
   trim_lines [''  '', ''  Scenario: A'', '''', ''  Given x  '', '' ''] =
     [''Scenario: A'', '''', ''  Given x''] \<and>
   split_scenarios indented_example = [join [''Scenario: A'', ''  Given x'']]"
proof -
  have a: "lstrip ''Scenario: A'' = ''Scenario: A''" "rstrip ''  Given x'' = ''  Given x''"
    by code_simp+
  have b: "trim_lines [''  '', ''  Scenario: A'', '''', ''  Given x  '', '' ''] =
     [''Scenario: A'', '''', ''  Given x'']"
    by code_simp
  have c: "chunks (splitlines indented_example) = [[''  Scenario: A'', ''  Given x  '']]"
    unfolding indented_example_def by code_simp
  have d: "trim_lines [''  Scenario: A'', ''  Given x  ''] = [''Scenario: A'', ''  Given x'']"
    by code_simp
  let ?g = "[''Scenario: A'', ''  Given x'']"
  have "?g \<noteq> [] \<and> hd ?g \<noteq> [] \<and> lstrip (hd ?g) = hd ?g \<and> last ?g \<noteq> [] \<and>
      rstrip (last ?g) = last ?g"
    using a by simp
  then have "trim_lines ?g = ?g"
    using split_scenarios_preserves_lines [of "[]" ?g] by blast
  moreover have "split_scenarios indented_example = [join [''Scenario: A'', ''  Given x'']]"
    using split_scenarios_preserves_lines [of indented_example] by (simp only: c d list.map)
  ultimately show ?thesis
    using a b by simp
qed

section \<open>The rendered text, line by line\<close>

lemma feature_body_loop_concat:
  "feature_body_loop acc bs =
     acc @ concat (map (\<lambda>s. join (map indent_line (splitlines s)) @ [LF, LF]) bs)"
  by (induction bs arbitrary: acc) simp_all

lemma feature_content_concat:
  "feature_content bs =
     feature_header @ concat (map (\<lambda>s. join (map indent_line (splitlines s)) @ [LF, LF]) bs)"
  by (simp add: feature_content_def feature_body_loop_concat)

lemma feature_header_join: "feature_header = join header_lines @ [LF, LF]"
  by (simp add: feature_header_def header_lines_def)

lemma header_lines_plain: "\<forall>l \<in> set header_lines. \<forall>c \<in> set l. \<not> is_linebreak c"
  by (simp add: header_lines_def is_linebreak_def)

lemma splitlines_header: "splitlines (feature_header @ s) = header_lines @ [] # splitlines s"
proof -
  have "splitlines (join header_lines @ LF # (LF # s)) = header_lines @ splitlines (LF # s)"
    by (rule splitlines_join) (simp_all add: header_lines_plain, simp add: header_lines_def)
  then show ?thesis
    by (simp add: feature_header_join splitlines_Cons_LF)
qed

lemma indent_line_plain:
  "\<forall>c \<in> set l. \<not> is_linebreak c \<Longrightarrow> \<forall>c \<in> set (indent_line l). \<not> is_linebreak c"
  using not_linebreak_space by (auto simp: indent_line_def)

lemma splitlines_block:
  "splitlines ((join (map indent_line (splitlines b)) @ [LF, LF]) @ s) =
     (if b = [] then [[], []] else map indent_line (splitlines b) @ [[]]) @ splitlines s"
proof (cases "b = []")
  case True
  have "splitlines (LF # LF # s) = [] # [] # splitlines s"
    by (simp only: splitlines_Cons_LF)
  then show ?thesis using True by simp
next
  case False
  let ?ls = "map indent_line (splitlines b)"
  have ne: "?ls \<noteq> []" using False by (simp add: splitlines_Nil_iff)
  have pl: "\<forall>l \<in> set ?ls. \<forall>c \<in> set l. \<not> is_linebreak c"
  proof
    fix l
    assume "l \<in> set ?ls"
    then obtain k where k: "k \<in> set (splitlines b)" and l: "l = indent_line k"
      by auto
    have "\<forall>c \<in> set k. \<not> is_linebreak c"
      using splitlines_no_linebreak [OF k] by blast
    then show "\<forall>c \<in> set l. \<not> is_linebreak c"
      unfolding l by (rule indent_line_plain)
  qed
  have "splitlines (join ?ls @ LF # (LF # s)) = ?ls @ splitlines (LF # s)"
    using ne pl by (rule splitlines_join)
  then show ?thesis
    using False by (simp add: splitlines_Cons_LF)
qed

lemma splitlines_blocks:
  "splitlines (concat (map (\<lambda>s. join (map indent_line (splitlines s)) @ [LF, LF]) bs) @ s) =
     concat (map (\<lambda>b. if b = [] then [[], []] else map indent_line (splitlines b) @ [[]]) bs)
       @ splitlines s"
proof (induction bs)
  case Nil
  then show ?case by simp
next
  case (Cons b bs)
  have "splitlines ((join (map indent_line (splitlines b)) @ [LF, LF]) @
          (concat (map (\<lambda>s. join (map indent_line (splitlines s)) @ [LF, LF]) bs) @ s)) =
        (if b = [] then [[], []] else map indent_line (splitlines b) @ [[]]) @
        splitlines (concat (map (\<lambda>s. join (map indent_line (splitlines s)) @ [LF, LF]) bs) @ s)"
    by (rule splitlines_block)
  then show ?case
    using Cons.IH by simp
qed

lemma splitlines_feature_content:
  "splitlines (feature_content bs) =
     header_lines @ [[]] @
     concat (map (\<lambda>b. if b = [] then [[], []] else map indent_line (splitlines b) @ [[]]) bs)"
  using splitlines_blocks [of bs "[]"]
  by (simp add: feature_content_concat splitlines_header)

lemma linebreak_isspace: "is_linebreak c \<Longrightarrow> isspace c"
  by (auto simp: is_linebreak_def isspace_def)

lemma rstrip_prefix: "\<exists>ys. x = rstrip x @ ys"
proof -
  have "rev (dropWhile isspace (rev x)) @ rev (takeWhile isspace (rev x)) =
      rev (takeWhile isspace (rev x) @ dropWhile isspace (rev x))"
    by (simp only: rev_append)
  also have "\<dots> = x" by simp
  finally have "x = rstrip x @ rev (takeWhile isspace (rev x))"
    by (simp only: rstrip_def)
  then show ?thesis ..
qed

lemma strip_last: "strip s \<noteq> [] \<Longrightarrow> \<not> isspace (last (strip s))"
proof -
  assume ne: "strip s \<noteq> []"
  then have d: "dropWhile isspace (rev (lstrip s)) \<noteq> []"
    by (simp add: strip_def rstrip_def)
  have "last (strip s) = hd (dropWhile isspace (rev (lstrip s)))"
    using d by (simp add: strip_def rstrip_def last_rev)
  then show ?thesis using hd_dropWhile [OF d] by simp
qed

lemma strip_hd: "strip s \<noteq> [] \<Longrightarrow> \<not> isspace (hd (strip s))"
proof -
  assume ne: "strip s \<noteq> []"
  obtain ys where ys: "lstrip s = strip s @ ys"
    using rstrip_prefix [of "lstrip s"] by (auto simp: strip_def)
  then have l: "lstrip s \<noteq> []" using ne by auto
  have "hd (lstrip s) = hd (strip s)"
    using ys ne by (metis hd_append2)
  moreover have "\<not> isspace (hd (lstrip s))"
    using l unfolding lstrip_def by (rule hd_dropWhile)
  ultimately show ?thesis by simp
qed

lemma splitlines_hd:
  "b \<noteq> [] \<Longrightarrow> \<not> isspace (hd b) \<Longrightarrow> \<not> blank_line (hd (splitlines b))"
proof -
  assume b: "b \<noteq> []" and h: "\<not> isspace (hd b)"
  obtain c s where cs: "b = c # s" using b by (cases b) auto
  have nl: "\<not> is_linebreak c" using h cs linebreak_isspace by auto
  have "\<exists>l. hd (splitlines (c # s)) = c # l"
    using nl by (auto simp: splitlines_Cons_plain split: list.splits)
  then show ?thesis
    using h cs by (auto simp: blank_line_Cons)
qed

lemma splitlines_snoc_plain:
  "\<not> is_linebreak c \<Longrightarrow> \<exists>ls l. splitlines (s @ [c]) = ls @ [l @ [c]]"
proof (induction s)
  case Nil
  then show ?case by simp
next
  case (Cons a s)
  then obtain ls l where e: "splitlines (s @ [c]) = ls @ [l @ [c]]" by blast
  show ?case
  proof (cases "is_linebreak a")
    case False
    show ?thesis
    proof (cases ls)
      case Nil
      then have "splitlines (a # s @ [c]) = [] @ [(a # l) @ [c]]"
        using False e by (simp add: splitlines_Cons_plain)
      then show ?thesis by (metis append_Cons)
    next
      case (Cons k ks)
      then have "splitlines (a # s @ [c]) = ((a # k) # ks) @ [l @ [c]]"
        using False e by (simp add: splitlines_Cons_plain)
      then show ?thesis by (metis append_Cons)
    qed
  next
    case True
    have "splitlines (a # s @ [c]) = [] # splitlines (s @ [c]) \<or>
          splitlines (a # s @ [c]) = [] # splitlines (tl (s @ [c]))"
      using True by (cases "s @ [c]") auto
    moreover have "\<exists>ls l. splitlines (tl (s @ [c])) = ls @ [l @ [c]]"
      if "a = CR" and "hd (s @ [c]) = LF"
    proof (cases s)
      case Nil
      then show ?thesis using that Cons.prems is_linebreak_LF by auto
    next
      case (Cons k ks)
      then have k: "k = LF" using that by simp
      have "splitlines (s @ [c]) = [] # splitlines (ks @ [c])"
        using Cons k by (simp add: splitlines_Cons_LF)
      then have "splitlines (ks @ [c]) = tl ls @ [l @ [c]]"
        using e by (cases ls) auto
      then show ?thesis using Cons by auto
    qed
    moreover have "splitlines (a # s @ [c]) = [] # splitlines (s @ [c])"
      if "\<not> (a = CR \<and> hd (s @ [c]) = LF)"
      using that True by (cases "s @ [c]") auto
    ultimately show ?thesis
      using e by (metis append_Cons)
  qed
qed

lemma splitlines_last:
  "b \<noteq> [] \<Longrightarrow> \<not> isspace (last b) \<Longrightarrow> \<not> blank_line (last (splitlines b))"
proof -
  assume b: "b \<noteq> []" and h: "\<not> isspace (last b)"
  have nl: "\<not> is_linebreak (last b)" using h linebreak_isspace by auto
  have "b = butlast b @ [last b]" using b by simp
  then obtain ls l where "splitlines b = ls @ [l @ [last b]]"
    using splitlines_snoc_plain [OF nl, of "butlast b"] by auto
  then show ?thesis
    using h by (simp add: blank_line_iff)
qed

lemma indent_line_nonblank: "\<not> blank_line l \<Longrightarrow> \<not> blank_line (indent_line l)"
  by (simp add: indent_line_def blank_line_def [symmetric] blank_line_Cons)

lemma split_scenarios_stripped: "b \<in> set (split_scenarios t) \<Longrightarrow> \<exists>s. b = strip s"
  by (auto simp: split_scenarios_chunks)

lemma happy_block_stripped:
  "b \<in> set (happy (validate_and_select_happy t)) \<Longrightarrow> b \<noteq> [] \<and> (\<exists>s. b = strip s)"
proof -
  assume "b \<in> set (happy (validate_and_select_happy t))"
  then have v: "is_valid_scenario b" and m: "b \<in> set (split_scenarios t)"
    by (simp_all add: validate_and_select_happy_def Let_def)
  have "\<not> is_valid_scenario []" by (simp add: is_valid_scenario_def)
  then have "b \<noteq> []" using v by auto
  then show ?thesis using split_scenarios_stripped [OF m] by simp
qed

lemma stripped_block_lines:
  "b \<noteq> [] \<Longrightarrow> b = strip s \<Longrightarrow>
   \<not> blank_line (hd (map indent_line (splitlines b))) \<and>
   \<not> blank_line (last (map indent_line (splitlines b)))"
proof -
  assume b: "b \<noteq> []" and s: "b = strip s"
  have ne: "splitlines b \<noteq> []" using b by (simp add: splitlines_Nil_iff)
  have "\<not> isspace (hd b)" "\<not> isspace (last b)"
    using b s strip_hd [of s] strip_last [of s] by auto
  then have "\<not> blank_line (hd (splitlines b))" "\<not> blank_line (last (splitlines b))"
    using b splitlines_hd splitlines_last by auto
  then show ?thesis
    using ne by (simp add: hd_map last_map indent_line_nonblank)
qed

section \<open>The feature file content\<close>

text \<open>
  C3, as stated: exactly two blank lines separate the header from the body, and exactly
  two separate consecutive scenarios. An input with two happy scenarios has both in its
  happy sequence, and the file rendered from that sequence has the four header lines, one
  empty line, the first scenario, one empty line, the second scenario and one empty line:
  the run of blank lines after the header and the run after the first scenario have
  length 1, not 2.
\<close>

theorem two_blank_lines_counterexample:
  "happy (validate_and_select_happy two_happy_text) = [happy_example, happy_example] \<and>
   splitlines (feature_content (happy (validate_and_select_happy two_happy_text))) =
     header_lines @ [[], ''  '' @ happy_example, [], ''  '' @ happy_example, []] \<and>
   blank_run (drop 4
     (splitlines (feature_content (happy (validate_and_select_happy two_happy_text))))) \<noteq> 2 \<and>
   blank_run (drop 6
     (splitlines (feature_content (happy (validate_and_select_happy two_happy_text))))) \<noteq> 2"
proof -
  have h: "happy (validate_and_select_happy two_happy_text) = [happy_example, happy_example]"
    by code_simp
  have l: "splitlines (feature_content [happy_example, happy_example]) =
      header_lines @ [[], ''  '' @ happy_example, [], ''  '' @ happy_example, []]"
    by code_simp
  have b: "blank_run (drop 4
      (header_lines @ [[], ''  '' @ happy_example, [], ''  '' @ happy_example, []])) \<noteq> 2"
    "blank_run (drop 6
      (header_lines @ [[], ''  '' @ happy_example, [], ''  '' @ happy_example, []])) \<noteq> 2"
    by code_simp+
  show ?thesis
    unfolding h l using b by simp
qed

text \<open>
  C3, amended: for every sequence of blocks the content is the fixed header followed, for
  each block in order, by its lines joined by newlines, each non-blank line prefixed with
  two spaces and each blank line empty, and then two newline characters. Read as lines: the
  four header lines, one empty line, and per block its lines and one empty line (an empty
  block gives two empty lines). The blocks of a happy sequence are non-empty and start and
  end with a non-blank line, so exactly one blank line separates the header from the body
  and each scenario from the next.
\<close>

theorem feature_content_layout:
  "feature_content bs =
     feature_header @ concat (map (\<lambda>s. join (map indent_line (splitlines s)) @ [LF, LF]) bs) \<and>
   indent_line l = (if blank_line l then [] else ''  '' @ l) \<and>
   splitlines (feature_content bs) =
     header_lines @ [[]] @
     concat (map (\<lambda>b. if b = [] then [[], []] else map indent_line (splitlines b) @ [[]]) bs) \<and>
   (\<forall>b \<in> set (happy (validate_and_select_happy t)).
      b \<noteq> [] \<and> \<not> blank_line (hd (map indent_line (splitlines b))) \<and>
      \<not> blank_line (last (map indent_line (splitlines b))))"
proof -
  have i: "indent_line l = (if blank_line l then [] else ''  '' @ l)"
    by (simp add: indent_line_def blank_line_def)
  have h: "\<forall>b \<in> set (happy (validate_and_select_happy t)).
      b \<noteq> [] \<and> \<not> blank_line (hd (map indent_line (splitlines b))) \<and>
      \<not> blank_line (last (map indent_line (splitlines b)))"
  proof
    fix b
    assume "b \<in> set (happy (validate_and_select_happy t))"
    then obtain s where "b \<noteq> []" and "b = strip s"
      using happy_block_stripped by blast
    then show "b \<noteq> [] \<and> \<not> blank_line (hd (map indent_line (splitlines b))) \<and>
      \<not> blank_line (last (map indent_line (splitlines b)))"
      using stripped_block_lines by blast
  qed
  show ?thesis
    using feature_content_concat [of bs] i splitlines_feature_content [of bs] h by blast
qed

theorem feature_content_layout_witness:
  "happy (validate_and_select_happy happy_example) = [happy_example] \<and>
   happy_example \<noteq> [] \<and>
   \<not> blank_line (hd (map indent_line (splitlines happy_example))) \<and>
   \<not> blank_line (last (map indent_line (splitlines happy_example))) \<and>
   splitlines (feature_content [happy_example]) =
     header_lines @ [[], ''  '' @ happy_example, []]"
proof -
  have a: "happy (validate_and_select_happy happy_example) = [happy_example]"
    unfolding happy_example_def by code_simp
  have b: "happy_example \<noteq> []" "splitlines happy_example = [happy_example]"
    "indent_line happy_example = ''  '' @ happy_example"
    unfolding happy_example_def by code_simp+
  have "happy_example \<in> set (happy (validate_and_select_happy happy_example))"
    by (simp add: a)
  then have "\<not> blank_line (hd (map indent_line (splitlines happy_example))) \<and>
      \<not> blank_line (last (map indent_line (splitlines happy_example)))"
    using feature_content_layout [of "[happy_example]" "[]" happy_example] by blast
  moreover have "splitlines (feature_content [happy_example]) =
      header_lines @ [[]] @
      concat (map (\<lambda>b. if b = [] then [[], []] else map indent_line (splitlines b) @ [[]])
        [happy_example])"
    using feature_content_layout [of "[happy_example]" "[]" happy_example] by blast
  then have "splitlines (feature_content [happy_example]) =
      header_lines @ [[], ''  '' @ happy_example, []]"
    by (simp add: b)
  ultimately show ?thesis
    using a b by simp
qed

text \<open>
  C7: rendering no block gives exactly the header, whose last line is its one empty line.
  Rendering a further block appends its lines, joined by newlines, and two newline
  characters: every non-blank line is prefixed with exactly two spaces, every blank line
  becomes the empty line, and one empty line follows the lines of the block. This holds for
  the final block as for the others, so the file ends in one blank line after it.
\<close>

theorem feature_content_rendering:
  "feature_content [] = feature_header \<and>
   splitlines feature_header = header_lines @ [[]] \<and>
   feature_content (bs @ [b]) =
     feature_content bs @ join (map indent_line (splitlines b)) @ [LF, LF] \<and>
   (\<not> blank_line l \<longrightarrow> indent_line l = ''  '' @ l) \<and>
   (blank_line l \<longrightarrow> indent_line l = []) \<and>
   (b \<noteq> [] \<longrightarrow>
      splitlines (feature_content (bs @ [b])) =
        splitlines (feature_content bs) @ map indent_line (splitlines b) @ [[]])"
proof -
  have c1: "feature_content [] = feature_header"
    by (simp add: feature_content_def)
  have c2: "splitlines feature_header = header_lines @ [[]]"
    using splitlines_header [of "[]"] by simp
  have c3: "feature_content (bs @ [b]) =
      feature_content bs @ join (map indent_line (splitlines b)) @ [LF, LF]"
    by (simp add: feature_content_concat)
  have c4: "\<not> blank_line l \<longrightarrow> indent_line l = ''  '' @ l"
    by (simp add: indent_line_def blank_line_def)
  have c5: "blank_line l \<longrightarrow> indent_line l = []"
    by (simp add: indent_line_def blank_line_def)
  have c6: "b \<noteq> [] \<longrightarrow>
      splitlines (feature_content (bs @ [b])) =
        splitlines (feature_content bs) @ map indent_line (splitlines b) @ [[]]"
    by (simp add: splitlines_feature_content)
  from c1 c2 c3 c4 c5 c6 show ?thesis by blast
qed

theorem feature_content_rendering_witness:
  "\<not> blank_line ''  Given x'' \<and> indent_line ''  Given x'' = ''    Given x'' \<and>
   blank_line '' '' \<and> indent_line '' '' = [] \<and>
   spaced_block \<noteq> [] \<and>
   splitlines spaced_block = [''Scenario: B'', '' '', ''  Given x''] \<and>
   splitlines (feature_content ([''Scenario: A''] @ [spaced_block])) =
     splitlines (feature_content [''Scenario: A'']) @
     [''  Scenario: B'', [], ''    Given x'', []] \<and>
   splitlines (feature_content [''Scenario: A'']) = header_lines @ [[], ''  Scenario: A'', []]"
proof -
  have a: "\<not> blank_line ''  Given x''" "blank_line '' ''" "\<not> blank_line ''Scenario: B''"
    by code_simp+
  have b: "spaced_block \<noteq> []"
    "splitlines spaced_block = [''Scenario: B'', '' '', ''  Given x'']"
    unfolding spaced_block_def by code_simp+
  have c: "splitlines (feature_content [''Scenario: A'']) =
      header_lines @ [[], ''  Scenario: A'', []]"
    by code_simp
  have i1: "indent_line ''  Given x'' = ''    Given x''"
    using a feature_content_rendering [of "[]" "[]" "''  Given x''"] by simp
  have i2: "indent_line '' '' = []"
    using a feature_content_rendering [of "[]" "[]" "'' ''"] by simp
  have i3: "indent_line ''Scenario: B'' = ''  Scenario: B''"
    using a feature_content_rendering [of "[]" "[]" "''Scenario: B''"] by simp
  have "splitlines (feature_content ([''Scenario: A''] @ [spaced_block])) =
      splitlines (feature_content [''Scenario: A'']) @
      map indent_line (splitlines spaced_block) @ [[]]"
    using b feature_content_rendering [of "[''Scenario: A'']" spaced_block] by blast
  then have "splitlines (feature_content ([''Scenario: A''] @ [spaced_block])) =
      splitlines (feature_content [''Scenario: A'']) @
      [''  Scenario: B'', [], ''    Given x'', []]"
    by (simp add: b i1 i2 i3)
  then show ?thesis
    using a b c i1 i2 by simp
qed

section \<open>Blocks hold only text of the input\<close>

lemma sublist_strip: "sublist (strip s) s"
proof -
  have "sublist (rev (strip s)) (rev (lstrip s))"
    by (simp add: strip_def rstrip_def)
  then have "sublist (strip s) (lstrip s)" by (simp only: sublist_rev)
  moreover have "sublist (lstrip s) s" by (simp add: lstrip_def)
  ultimately show ?thesis by (rule sublist_order.order_trans)
qed

lemma sublist_across:
  assumes "sublist k (a @ c # b)" and "c \<notin> set k"
  shows "sublist k a \<or> sublist k b"
proof -
  have p: "\<not> prefix (x # xs) (c # b)" if "x # xs = k'" and "set k' \<subseteq> set k" for x xs k'
    using that assms(2) by auto
  from assms(1) consider "sublist k a" | "sublist k (c # b)"
    | k1 k2 where "k = k1 @ k2" "suffix k1 a" "prefix k2 (c # b)"
    by (auto simp: sublist_append)
  then show ?thesis
  proof cases
    case 1
    then show ?thesis ..
  next
    case 2
    then have "prefix k (c # b) \<or> sublist k b" by (simp add: sublist_Cons_right)
    then show ?thesis
    proof
      assume "prefix k (c # b)"
      then have "k = []" using assms(2) by (cases k) auto
      then show ?thesis by simp
    qed simp
  next
    case 3
    have "k2 = []"
      using 3 assms(2) by (cases k2) auto
    then have "suffix k a" using 3 by simp
    then show ?thesis by auto
  qed
qed

lemma sublist_join:
  "sublist k (join g) \<Longrightarrow> LF \<notin> set k \<Longrightarrow> k \<noteq> [] \<Longrightarrow> \<exists>l \<in> set g. sublist k l"
proof (induction g rule: join.induct)
  case 1
  then show ?case by simp
next
  case (2 x)
  then show ?case by simp
next
  case (3 x y ys)
  from "3.prems" have "sublist k x \<or> sublist k (join (y # ys))"
    using sublist_across [of k x LF "join (y # ys)"] by simp
  then show ?case
    using "3.IH" "3.prems" by auto
qed

lemma splitlines_first_prefix: "splitlines s = h # hs \<Longrightarrow> prefix h s"
proof (induction s arbitrary: h hs rule: splitlines.induct)
  case 1
  then show ?case by simp
next
  case (2 c)
  then show ?case by (auto split: if_splits)
next
  case (3 c d cs)
  show ?case
  proof (cases "is_linebreak c")
    case True
    then have "h = []" using "3.prems" by (auto split: if_splits)
    then show ?thesis by simp
  next
    case False
    then have nc: "\<not> (c = CR \<and> d = LF)" using is_linebreak_CR by auto
    obtain a as where a: "splitlines (d # cs) = a # as"
      using splitlines_Nil_iff [of "d # cs"] by (cases "splitlines (d # cs)") auto
    then have "h = c # a" using "3.prems" False nc by simp
    moreover have "prefix a (d # cs)"
      using "3.IH"(3) [OF nc False a] .
    ultimately show ?thesis by simp
  qed
qed

lemma splitlines_sublist: "l \<in> set (splitlines s) \<Longrightarrow> sublist l s"
proof (induction s arbitrary: l rule: splitlines.induct)
  case 1
  then show ?case by simp
next
  case (2 c)
  then show ?case by (auto split: if_splits)
next
  case (3 c d cs)
  show ?case
  proof (cases "c = CR \<and> d = LF")
    case True
    then have "l = [] \<or> l \<in> set (splitlines cs)" using "3.prems" by auto
    then show ?thesis
    proof
      assume "l \<in> set (splitlines cs)"
      then have "sublist l cs" using "3.IH"(1) True by blast
      then have "sublist l ([c, d] @ cs)" by (metis sublist_append)
      then show ?thesis by simp
    qed simp
  next
    case nc: False
    show ?thesis
    proof (cases "is_linebreak c")
      case True
      then have "l = [] \<or> l \<in> set (splitlines (d # cs))" using "3.prems" nc by auto
      then show ?thesis
      proof
        assume "l \<in> set (splitlines (d # cs))"
        then have "sublist l (d # cs)" using "3.IH"(2) nc True by blast
        then show ?thesis by (simp add: sublist_Cons_right)
      qed simp
    next
      case False
      obtain a as where a: "splitlines (d # cs) = a # as"
        using splitlines_Nil_iff [of "d # cs"] by (cases "splitlines (d # cs)") auto
      then have "l = c # a \<or> l \<in> set as" using "3.prems" False nc by auto
      then show ?thesis
      proof
        assume "l = c # a"
        moreover have "prefix a (d # cs)" using a by (rule splitlines_first_prefix)
        ultimately have "prefix l (c # d # cs)" by simp
        then show ?thesis by (rule prefix_imp_sublist)
      next
        assume "l \<in> set as"
        then have "sublist l (d # cs)" using "3.IH"(3) [OF nc False] a by simp
        then show ?thesis by (simp add: sublist_Cons_right)
      qed
    qed
  qed
qed

lemma block_sublist:
  assumes "b \<in> set (split_scenarios t)" and "sublist k b" and "k \<noteq> []" and "LF \<notin> set k"
  shows "sublist k t"
proof -
  from assms(1) obtain g where g: "g \<in> set (chunks (splitlines t))" and b: "b = strip (join g)"
    by (auto simp: split_scenarios_chunks)
  have "sublist k (join g)"
    using assms(2) sublist_strip [of "join g"] unfolding b
    by (rule sublist_order.order_trans)
  then obtain l where l: "l \<in> set g" and kl: "sublist k l"
    using sublist_join assms(3,4) by blast
  have "l \<in> set (concat (chunks (splitlines t)))" using g l by auto
  then have "l \<in> set (splitlines t)" by (simp only: concat_chunks)
  then have "sublist l t" by (rule splitlines_sublist)
  with kl show ?thesis by (rule sublist_order.order_trans)
qed

lemma keyword_missing_no_valid:
  assumes "k \<in> set [''Given'', ''When'', ''Then'']" and "\<not> (\<exists>p q. t = p @ k @ q)"
  shows "filter is_valid_scenario (split_scenarios t) = []"
proof -
  have k: "k \<noteq> []" "LF \<notin> set k" using assms(1) by (auto simp: LF_def)
  have "\<not> is_valid_scenario b" if b: "b \<in> set (split_scenarios t)" for b
  proof
    assume "is_valid_scenario b"
    then have "py_in k b"
      using assms(1) by (auto simp: is_valid_scenario_def)
    then have "sublist k b" by (simp add: py_in_sublist)
    then have "sublist k t" using block_sublist [OF b _ k] by blast
    then show False using assms(2) by (auto simp: sublist_def)
  qed
  then show ?thesis by (simp add: filter_empty_conv)
qed

lemma lower_char_LF: "lower_char LF = LF"
  by (simp add: lower_char_def LF_def)

lemma lower_join: "lower (join g) = join (map lower g)"
  by (induction g rule: join.induct) (simp_all add: lower_def lower_char_LF)

lemma lower_block_sublist:
  assumes "b \<in> set (split_scenarios t)" and "sublist k (lower b)" and "k \<noteq> []"
    and "LF \<notin> set k"
  shows "sublist k (lower t)"
proof -
  from assms(1) obtain g where g: "g \<in> set (chunks (splitlines t))" and b: "b = strip (join g)"
    by (auto simp: split_scenarios_chunks)
  have "sublist (lower (strip (join g))) (lower (join g))"
    unfolding lower_def using sublist_strip by (rule map_mono_sublist)
  with assms(2) have "sublist k (lower (join g))"
    unfolding b by (rule sublist_order.order_trans)
  then have "sublist k (join (map lower g))" by (simp only: lower_join)
  then obtain m where "m \<in> set (map lower g)" and km: "sublist k m"
    using sublist_join assms(3,4) by blast
  then obtain l where l: "l \<in> set g" and m: "m = lower l" by auto
  have "l \<in> set (concat (chunks (splitlines t)))" using g l by auto
  then have "l \<in> set (splitlines t)" by (simp only: concat_chunks)
  then have "sublist l t" by (rule splitlines_sublist)
  then have "sublist (lower l) (lower t)"
    unfolding lower_def by (rule map_mono_sublist)
  with km show ?thesis unfolding m by (rule sublist_order.order_trans)
qed

lemma action_missing_no_happy:
  assumes "\<not> (\<exists>p q. lower t = p @ ''login'' @ q)" and "\<not> (\<exists>p q. lower t = p @ ''submit'' @ q)"
    and "\<not> (\<exists>p q. lower t = p @ ''approve'' @ q)"
  shows "happy (validate_and_select_happy t) = []"
proof -
  have "\<not> contains_known_actions b" if b: "b \<in> set (split_scenarios t)" for b
  proof
    assume "contains_known_actions b"
    then obtain k where k: "k \<in> set HAPPY_KEYWORDS" and "py_in k (lower b)"
      by (auto simp: contains_known_actions_def Let_def list_ex_iff)
    then have s: "sublist k (lower b)" by (simp add: py_in_sublist)
    have "k \<noteq> []" "LF \<notin> set k" using k by (auto simp: HAPPY_KEYWORDS_def LF_def)
    then have "sublist k (lower t)" using lower_block_sublist [OF b s] by blast
    then obtain p q where pq: "lower t = p @ k @ q"
      unfolding sublist_def by blast
    have "k = ''login'' \<or> k = ''submit'' \<or> k = ''approve''"
      using k by (simp add: HAPPY_KEYWORDS_def)
    then show False using assms pq by blast
  qed
  then show ?thesis
    by (auto simp: validate_and_select_happy_def Let_def filter_empty_conv)
qed

section \<open>Degraded results\<close>

text \<open>
  C8: no operation of the pipeline has a failing case on a string, so the pipeline is a
  function that returns a result for every input. On the empty string the result has no
  block and the summary is \<open>total = 0\<close>, \<open>valid = 0\<close>, \<open>happy = 0\<close>,
  \<open>has_required_actions = True\<close>. An input text in which one of \<open>Given\<close>, \<open>When\<close>, \<open>Then\<close>
  does not occur gives empty \<open>valid\<close> and \<open>happy\<close> sequences with both counts 0, and an input
  whose lower-cased text contains none of \<open>login\<close>, \<open>submit\<close>, \<open>approve\<close> gives an empty
  \<open>happy\<close> sequence with the count 0; \<open>has_required_actions\<close> stays true. On every input
  \<open>happy\<close> is no longer than \<open>valid\<close>, and \<open>valid\<close> no longer than \<open>all\<close>.
\<close>

theorem pipeline_total_and_degrades:
  "validate_and_select_happy [] =
     \<lparr>all = [], valid = [], happy = [],
      summary = \<lparr>total_count = 0, valid_count = 0, happy_count = 0,
                  has_required_actions = True\<rparr>\<rparr> \<and>
   split_scenarios [] = [] \<and>
   (\<not> (\<exists>p q. t = p @ ''Given'' @ q) \<or> \<not> (\<exists>p q. t = p @ ''When'' @ q) \<or>
    \<not> (\<exists>p q. t = p @ ''Then'' @ q) \<longrightarrow>
      valid (validate_and_select_happy t) = [] \<and> happy (validate_and_select_happy t) = [] \<and>
      summary (validate_and_select_happy t) =
        \<lparr>total_count = length (split_scenarios t), valid_count = 0, happy_count = 0,
         has_required_actions = True\<rparr>) \<and>
   (\<not> (\<exists>p q. lower t = p @ ''login'' @ q) \<and> \<not> (\<exists>p q. lower t = p @ ''submit'' @ q) \<and>
    \<not> (\<exists>p q. lower t = p @ ''approve'' @ q) \<longrightarrow>
      happy (validate_and_select_happy t) = [] \<and>
      happy_count (summary (validate_and_select_happy t)) = 0 \<and>
      has_required_actions (summary (validate_and_select_happy t)) = True) \<and>
   length (happy (validate_and_select_happy t)) \<le> length (valid (validate_and_select_happy t)) \<and>
   length (valid (validate_and_select_happy t)) \<le> length (all (validate_and_select_happy t))"
proof -
  let ?r = "validate_and_select_happy t"
  have e: "split_scenarios [] = []"
    by (simp add: split_scenarios_def)
  have a: "all ?r = split_scenarios t"
    and v: "valid ?r = filter is_valid_scenario (split_scenarios t)"
    and h: "happy ?r = filter (\<lambda>s. contains_known_actions s \<and> is_happy_path s) (valid ?r)"
    by (simp_all add: validate_and_select_happy_def Let_def)
  have s: "summary ?r = \<lparr>total_count = length (split_scenarios t),
      valid_count = length (valid ?r), happy_count = length (happy ?r),
      has_required_actions = True\<rparr>"
    by (simp add: validate_and_select_happy_def Let_def list_all_iff)
  have c1: "validate_and_select_happy [] =
     \<lparr>all = [], valid = [], happy = [],
      summary = \<lparr>total_count = 0, valid_count = 0, happy_count = 0,
                  has_required_actions = True\<rparr>\<rparr>"
    by (simp add: validate_and_select_happy_def Let_def e)
  have c3: "\<not> (\<exists>p q. t = p @ ''Given'' @ q) \<or> \<not> (\<exists>p q. t = p @ ''When'' @ q) \<or>
    \<not> (\<exists>p q. t = p @ ''Then'' @ q) \<longrightarrow>
      valid ?r = [] \<and> happy ?r = [] \<and>
      summary ?r = \<lparr>total_count = length (split_scenarios t), valid_count = 0,
        happy_count = 0, has_required_actions = True\<rparr>"
  proof
    assume m: "\<not> (\<exists>p q. t = p @ ''Given'' @ q) \<or> \<not> (\<exists>p q. t = p @ ''When'' @ q) \<or>
      \<not> (\<exists>p q. t = p @ ''Then'' @ q)"
    have v0: "valid ?r = []"
      using m
    proof (elim disjE)
      assume "\<not> (\<exists>p q. t = p @ ''Given'' @ q)"
      then show ?thesis unfolding v by (rule keyword_missing_no_valid [rotated]) simp
    next
      assume "\<not> (\<exists>p q. t = p @ ''When'' @ q)"
      then show ?thesis unfolding v by (rule keyword_missing_no_valid [rotated]) simp
    next
      assume "\<not> (\<exists>p q. t = p @ ''Then'' @ q)"
      then show ?thesis unfolding v by (rule keyword_missing_no_valid [rotated]) simp
    qed
    have h0: "happy ?r = []" by (simp add: h v0)
    show "valid ?r = [] \<and> happy ?r = [] \<and>
      summary ?r = \<lparr>total_count = length (split_scenarios t), valid_count = 0,
        happy_count = 0, has_required_actions = True\<rparr>"
      by (simp add: s v0 h0)
  qed
  have c4: "\<not> (\<exists>p q. lower t = p @ ''login'' @ q) \<and> \<not> (\<exists>p q. lower t = p @ ''submit'' @ q) \<and>
    \<not> (\<exists>p q. lower t = p @ ''approve'' @ q) \<longrightarrow>
      happy ?r = [] \<and> happy_count (summary ?r) = 0 \<and>
      has_required_actions (summary ?r) = True"
  proof
    assume "\<not> (\<exists>p q. lower t = p @ ''login'' @ q) \<and>
      \<not> (\<exists>p q. lower t = p @ ''submit'' @ q) \<and> \<not> (\<exists>p q. lower t = p @ ''approve'' @ q)"
    then have h0: "happy ?r = []"
      using action_missing_no_happy [of t] by blast
    show "happy ?r = [] \<and> happy_count (summary ?r) = 0 \<and>
      has_required_actions (summary ?r) = True"
      by (simp add: s h0)
  qed
  have c5: "length (happy ?r) \<le> length (valid ?r)"
    by (simp only: h length_filter_le)
  have c6: "length (valid ?r) \<le> length (all ?r)"
    by (simp only: a v length_filter_le)
  from c1 e c3 c4 c5 c6 show ?thesis by blast
qed

theorem pipeline_total_and_degrades_witness:
  "\<not> py_in ''Given'' ''garbage'' \<and>
   all (validate_and_select_happy ''garbage'') = [''garbage''] \<and>
   valid (validate_and_select_happy ''garbage'') = [] \<and>
   happy (validate_and_select_happy ''garbage'') = [] \<and>
   summary (validate_and_select_happy ''garbage'') =
     \<lparr>total_count = 1, valid_count = 0, happy_count = 0, has_required_actions = True\<rparr> \<and>
   \<not> py_in ''login'' (lower no_action_example) \<and>
   \<not> py_in ''submit'' (lower no_action_example) \<and>
   \<not> py_in ''approve'' (lower no_action_example) \<and>
   valid (validate_and_select_happy no_action_example) = [no_action_example] \<and>
   happy (validate_and_select_happy no_action_example) = [] \<and>
   happy_count (summary (validate_and_select_happy no_action_example)) = 0"
proof -
  have g: "\<not> py_in ''Given'' ''garbage''"
    by code_simp
  have b: "all (validate_and_select_happy ''garbage'') = [''garbage'']"
    "split_scenarios ''garbage'' = [''garbage'']"
    by code_simp+
  have n: "\<not> py_in ''login'' (lower no_action_example)"
    "\<not> py_in ''submit'' (lower no_action_example)"
    "\<not> py_in ''approve'' (lower no_action_example)"
    "valid (validate_and_select_happy no_action_example) = [no_action_example]"
    unfolding no_action_example_def by code_simp+
  have "\<not> (\<exists>p q. ''garbage'' = p @ ''Given'' @ q)"
    using g py_in_iff [of "''Given''" "''garbage''"] by blast
  then have r1: "valid (validate_and_select_happy ''garbage'') = [] \<and>
      happy (validate_and_select_happy ''garbage'') = [] \<and>
      summary (validate_and_select_happy ''garbage'') =
        \<lparr>total_count = length (split_scenarios ''garbage''), valid_count = 0,
         happy_count = 0, has_required_actions = True\<rparr>"
    using pipeline_total_and_degrades [of "''garbage''"] by blast
  have "\<not> (\<exists>p q. lower no_action_example = p @ ''login'' @ q) \<and>
      \<not> (\<exists>p q. lower no_action_example = p @ ''submit'' @ q) \<and>
      \<not> (\<exists>p q. lower no_action_example = p @ ''approve'' @ q)"
    using n(1,2,3) py_in_iff [of "''login''" "lower no_action_example"]
      py_in_iff [of "''submit''" "lower no_action_example"]
      py_in_iff [of "''approve''" "lower no_action_example"] by blast
  then have r2: "happy (validate_and_select_happy no_action_example) = [] \<and>
      happy_count (summary (validate_and_select_happy no_action_example)) = 0"
    using pipeline_total_and_degrades [of no_action_example] by blast
  show ?thesis
    using g b n r1 r2 by simp
qed

end
